theory Spec2Isabelle
  imports Main
begin

section \<open>Values, errors and the object store\<close>

text \<open>
  The cells of the board hold Python objects. The code distinguishes \<open>None\<close>, values
  whose type is exactly \<open>int\<close>, and everything else (the docstrings speak of lists of
  candidates). A slot of a \<open>Board\<close> holds a reference to a \<open>Section\<close> object.
\<close>

datatype pyval = PNone | PInt int | PList "int list" | PRef nat

datatype error = IndexError | ValueError | AttributeError

text \<open>
  Every object of the program (a \<open>Section\<close>, or a \<open>Board\<close>, which is a \<open>Section\<close>
  too) has one field, the list \<open>_slots\<close>. The store is the list of the objects
  allocated so far; a reference is a position in it, and allocation appends. Python
  has no reference to an object that does not exist; where the model meets one, and
  where a method is called on a value that is no \<open>Section\<close>, it raises
  \<open>AttributeError\<close>. A function that only reads returns its result or an error; a
  function that writes also returns the store, as it is when the function returns or
  raises.
\<close>

type_synonym heap = "pyval list list"

definition slots_of :: "heap \<Rightarrow> nat \<Rightarrow> pyval list option" where
  "slots_of h r = (if r < length h then Some (h ! r) else None)"

subsection \<open>Python list indexing\<close>

text \<open>
  \<open>xs[i]\<close> accepts \<open>-len(xs) \<le> i < len(xs)\<close>, a negative index counting from the end,
  and raises \<open>IndexError\<close> otherwise; so does the assignment \<open>xs[i] = v\<close>.
\<close>

definition py_index :: "'a list \<Rightarrow> int \<Rightarrow> nat option" where
  "py_index xs i =
     (let n = int (length xs)
      in if 0 \<le> i \<and> i < n then Some (nat i)
         else if - n \<le> i \<and> i < 0 then Some (nat (n + i))
         else None)"

definition list_getitem :: "'a list \<Rightarrow> int \<Rightarrow> error + 'a" where
  "list_getitem xs i = (case py_index xs i of None \<Rightarrow> Inl IndexError | Some k \<Rightarrow> Inr (xs ! k))"

definition list_setitem :: "'a list \<Rightarrow> int \<Rightarrow> 'a \<Rightarrow> error + 'a list" where
  "list_setitem xs i v =
     (case py_index xs i of None \<Rightarrow> Inl IndexError | Some k \<Rightarrow> Inr (xs[k := v]))"

definition range_py :: "int \<Rightarrow> int list" where
  "range_py n = [0..n - 1]"

section \<open>Section\<close>

text \<open>\<open>Section.__init__\<close>, together with the allocation of the object.\<close>

definition Section_init :: "heap \<Rightarrow> nat \<times> heap" where
  "Section_init h = (length h, h @ [replicate 9 PNone])"

definition get_at :: "nat \<Rightarrow> int \<Rightarrow> int \<Rightarrow> heap \<Rightarrow> error + pyval" where
  "get_at self x y h =
     (if \<not> (0 \<le> x \<and> x \<le> 2 \<and> 0 \<le> y \<and> y \<le> 2) then Inl IndexError
      else case slots_of h self of
             None \<Rightarrow> Inl AttributeError
           | Some sl \<Rightarrow> list_getitem sl (x + y * 3))"

text \<open>\<open>set_at\<close> has no guard: the index \<open>x + y * 3\<close> goes to the list as it is.\<close>

definition set_at :: "nat \<Rightarrow> pyval \<Rightarrow> int \<Rightarrow> int \<Rightarrow> heap \<Rightarrow> (error + unit) \<times> heap" where
  "set_at self item x y h =
     (case slots_of h self of
        None \<Rightarrow> (Inl AttributeError, h)
      | Some sl \<Rightarrow>
          (case list_setitem sl (x + y * 3) item of
             Inl e \<Rightarrow> (Inl e, h)
           | Inr sl' \<Rightarrow> (Inr (), h[self := sl'])))"

section \<open>Board\<close>

text \<open>
  A method called on the value found in a slot of the board: only a reference to a
  \<open>Section\<close> has the methods \<open>get_at\<close> and \<open>set_at\<close>.
\<close>

definition call_get_at :: "pyval \<Rightarrow> int \<Rightarrow> int \<Rightarrow> heap \<Rightarrow> error + pyval" where
  "call_get_at obj x y h =
     (case obj of PRef s \<Rightarrow> get_at s x y h | _ \<Rightarrow> Inl AttributeError)"

definition call_set_at :: "pyval \<Rightarrow> pyval \<Rightarrow> int \<Rightarrow> int \<Rightarrow> heap \<Rightarrow> (error + unit) \<times> heap" where
  "call_set_at obj item x y h =
     (case obj of PRef s \<Rightarrow> set_at s item x y h | _ \<Rightarrow> (Inl AttributeError, h))"

text \<open>The two nested \<open>for\<close> statements of the source run over these pairs, the outer variable first.\<close>

definition nested_range :: "int \<Rightarrow> int \<Rightarrow> (int \<times> int) list" where
  "nested_range m n = List.product (range_py m) (range_py n)"

fun set_sections_loop :: "nat \<Rightarrow> (int \<times> int) list \<Rightarrow> heap \<Rightarrow> (error + unit) \<times> heap" where
  "set_sections_loop self [] h = (Inr (), h)"
| "set_sections_loop self ((x, y) # cs) h =
     (case Section_init h of
        (s, h1) \<Rightarrow>
          (case set_at self (PRef s) x y h1 of
             (Inl e, h2) \<Rightarrow> (Inl e, h2)
           | (Inr u, h2) \<Rightarrow> set_sections_loop self cs h2))"

definition set_sections :: "nat \<Rightarrow> heap \<Rightarrow> (error + unit) \<times> heap" where
  "set_sections self h = set_sections_loop self (nested_range 3 3) h"

text \<open>\<open>Board()\<close>: allocation, \<open>Section.__init__\<close>, then \<open>set_sections\<close>.\<close>

definition Board_init :: "heap \<Rightarrow> (error + nat) \<times> heap" where
  "Board_init h =
     (case Section_init h of
        (self, h1) \<Rightarrow>
          (case set_sections self h1 of
             (Inl e, h2) \<Rightarrow> (Inl e, h2)
           | (Inr u, h2) \<Rightarrow> (Inr self, h2)))"

definition set_board_item :: "nat \<Rightarrow> pyval \<Rightarrow> int \<Rightarrow> int \<Rightarrow> heap \<Rightarrow> (error + unit) \<times> heap" where
  "set_board_item self number x y h =
     (case get_at self (x div 3) (y div 3) h of
        Inl e \<Rightarrow> (Inl e, h)
      | Inr sec \<Rightarrow> call_set_at sec number (x mod 3) (y mod 3) h)"

definition get_board_item :: "nat \<Rightarrow> int \<Rightarrow> int \<Rightarrow> heap \<Rightarrow> error + pyval" where
  "get_board_item self x y h =
     (if \<not> (0 \<le> x \<and> x \<le> 8 \<and> 0 \<le> y \<and> y \<le> 8) then Inl IndexError
      else case get_at self (x div 3) (y div 3) h of
             Inl e \<Rightarrow> Inl e
           | Inr sec \<Rightarrow> call_get_at sec (x mod 3) (y mod 3) h)"


text \<open>A list comprehension whose element expression may raise.\<close>

fun comprehension :: "('a \<Rightarrow> error + 'b) \<Rightarrow> 'a list \<Rightarrow> error + 'b list" where
  "comprehension f [] = Inr []"
| "comprehension f (a # as) =
     (case f a of
        Inl e \<Rightarrow> Inl e
      | Inr v \<Rightarrow> (case comprehension f as of Inl e \<Rightarrow> Inl e | Inr vs \<Rightarrow> Inr (v # vs)))"

definition get_column :: "nat \<Rightarrow> int \<Rightarrow> heap \<Rightarrow> error + pyval list" where
  "get_column self x h = comprehension (\<lambda>y. get_board_item self x y h) (range_py 9)"

definition get_row :: "nat \<Rightarrow> int \<Rightarrow> heap \<Rightarrow> error + pyval list" where
  "get_row self y h = comprehension (\<lambda>x. get_board_item self x y h) (range_py 9)"

subsection \<open>Validation\<close>

text \<open>
  The loop shared by the three unit checks: \<open>taken_numbers\<close> is a list of nine
  integers, \<open>index = number - 1\<close> goes to it as a Python index, and the loop returns
  \<open>False\<close> at the first number already taken. The horizontal and vertical checks test
  \<open>taken_numbers[index]\<close> for truth, the section check tests \<open>taken_numbers[index] > 0\<close>.
\<close>

fun taken_loop ::
  "(int \<Rightarrow> bool) \<Rightarrow> ('c \<Rightarrow> error + pyval) \<Rightarrow> 'c list \<Rightarrow> int list \<Rightarrow> error + bool" where
  "taken_loop tst get [] taken_numbers = Inr True"
| "taken_loop tst get (c # cs) taken_numbers =
     (case get c of
        Inl e \<Rightarrow> Inl e
      | Inr number \<Rightarrow>
          (case number of
             PInt n \<Rightarrow>
               (case list_getitem taken_numbers (n - 1) of
                  Inl e \<Rightarrow> Inl e
                | Inr t \<Rightarrow>
                    if tst t then Inr False
                    else (case list_setitem taken_numbers (n - 1) 1 of
                            Inl e \<Rightarrow> Inl e
                          | Inr taken' \<Rightarrow> taken_loop tst get cs taken'))
           | _ \<Rightarrow> taken_loop tst get cs taken_numbers))"

definition is_line_valid_horizontal :: "nat \<Rightarrow> int \<Rightarrow> heap \<Rightarrow> error + bool" where
  "is_line_valid_horizontal self y h =
     taken_loop (\<lambda>t. t \<noteq> 0) (\<lambda>x. get_board_item self x y h) (range_py 9) (replicate 9 0)"

definition is_line_valid_vertical :: "nat \<Rightarrow> int \<Rightarrow> heap \<Rightarrow> error + bool" where
  "is_line_valid_vertical self x h =
     taken_loop (\<lambda>t. t \<noteq> 0) (\<lambda>y. get_board_item self x y h) (range_py 9) (replicate 9 0)"

definition is_section_valid :: "nat \<Rightarrow> int \<Rightarrow> int \<Rightarrow> heap \<Rightarrow> error + bool" where
  "is_section_valid self section_x section_y h =
     (case get_at self section_x section_y h of
        Inl e \<Rightarrow> Inl e
      | Inr section \<Rightarrow>
          taken_loop (\<lambda>t. t > 0) (\<lambda>(x, y). call_get_at section x y h)
            (nested_range 3 3) (replicate 9 0))"

text \<open>A \<open>for\<close> loop that returns \<open>False\<close> at the first element whose check fails.\<close>

fun return_false_unless :: "('a \<Rightarrow> error + bool) \<Rightarrow> 'a list \<Rightarrow> error + bool" where
  "return_false_unless chk [] = Inr True"
| "return_false_unless chk (a # as) =
     (case chk a of
        Inl e \<Rightarrow> Inl e
      | Inr ok \<Rightarrow> if \<not> ok then Inr False else return_false_unless chk as)"

definition is_valid :: "nat \<Rightarrow> heap \<Rightarrow> error + bool" where
  "is_valid self h =
     (case return_false_unless (\<lambda>x. is_line_valid_vertical self x h) (range_py 9) of
        Inl e \<Rightarrow> Inl e
      | Inr False \<Rightarrow> Inr False
      | Inr True \<Rightarrow>
          (case return_false_unless (\<lambda>y. is_line_valid_horizontal self y h) (range_py 9) of
             Inl e \<Rightarrow> Inl e
           | Inr False \<Rightarrow> Inr False
           | Inr True \<Rightarrow>
               return_false_unless (\<lambda>(x, y). is_section_valid self x y h) (nested_range 3 3)))"


subsection \<open>Copying\<close>

fun get_copy_loop :: "nat \<Rightarrow> nat \<Rightarrow> (int \<times> int) list \<Rightarrow> heap \<Rightarrow> (error + unit) \<times> heap" where
  "get_copy_loop self new_board [] h = (Inr (), h)"
| "get_copy_loop self new_board ((x, y) # cs) h =
     (case get_board_item self x y h of
        Inl e \<Rightarrow> (Inl e, h)
      | Inr v \<Rightarrow>
          (case set_board_item new_board v x y h of
             (Inl e, h1) \<Rightarrow> (Inl e, h1)
           | (Inr u, h1) \<Rightarrow> get_copy_loop self new_board cs h1))"

definition get_copy :: "nat \<Rightarrow> heap \<Rightarrow> (error + nat) \<times> heap" where
  "get_copy self h =
     (case Board_init h of
        (Inl e, h1) \<Rightarrow> (Inl e, h1)
      | (Inr new_board, h1) \<Rightarrow>
          (case get_copy_loop self new_board (nested_range 9 9) h1 of
             (Inl e, h2) \<Rightarrow> (Inl e, h2)
           | (Inr u, h2) \<Rightarrow> (Inr new_board, h2)))"

subsection \<open>Loading\<close>

text \<open>
  \<open>int(char)\<close> for a one-character string: a decimal digit gives its value, any other
  character raises \<open>ValueError\<close>.
\<close>

definition int_of_char :: "char \<Rightarrow> error + int" where
  "int_of_char c =
     (let code = (of_char c :: nat)
      in if of_char (CHR ''0'') \<le> code \<and> code \<le> of_char (CHR ''9'')
         then Inr (int code - int (of_char (CHR ''0'')))
         else Inl ValueError)"

text \<open>
  \<open>str.splitlines\<close>: a line ends at a line boundary or at the end of the text; the
  boundaries are dropped, and a carriage return followed by a line feed is one boundary.
\<close>

definition is_line_boundary :: "char \<Rightarrow> bool" where
  "is_line_boundary c =
     (c \<in> set [CHR 0x0A, CHR 0x0D, CHR 0x0B, CHR 0x0C, CHR 0x1C, CHR 0x1D, CHR 0x1E, CHR 0x85])"

fun splitlines_from :: "string \<Rightarrow> string \<Rightarrow> string list" where
  "splitlines_from cur [] = (if cur = [] then [] else [rev cur])"
| "splitlines_from cur (c # cs) =
     (if c = CHR 0x0D \<and> cs \<noteq> [] \<and> hd cs = CHR 0x0A then rev cur # splitlines_from [] (tl cs)
      else if is_line_boundary c then rev cur # splitlines_from [] cs
      else splitlines_from (c # cur) cs)"

definition splitlines :: "string \<Rightarrow> string list" where
  "splitlines s = splitlines_from [] s"

fun load_line :: "nat \<Rightarrow> int \<Rightarrow> int \<Rightarrow> string \<Rightarrow> heap \<Rightarrow> (error + unit) \<times> heap" where
  "load_line self y x [] h = (Inr (), h)"
| "load_line self y x (char # rest) h =
     (if x \<ge> 9 then (Inr (), h)
      else if char \<noteq> CHR '' '' then
        (case int_of_char char of
           Inl e \<Rightarrow> (Inl e, h)
         | Inr n \<Rightarrow>
             (case set_board_item self (PInt n) x y h of
                (Inl e, h1) \<Rightarrow> (Inl e, h1)
              | (Inr u, h1) \<Rightarrow> load_line self y (x + 1) rest h1))
      else load_line self y (x + 1) rest h)"

fun load_lines :: "nat \<Rightarrow> int \<Rightarrow> string list \<Rightarrow> heap \<Rightarrow> (error + unit) \<times> heap" where
  "load_lines self y [] h = (Inr (), h)"
| "load_lines self y (line # lines) h =
     (case load_line self y 0 line h of
        (Inl e, h1) \<Rightarrow> (Inl e, h1)
      | (Inr u, h1) \<Rightarrow> load_lines self (y + 1) lines h1)"

text \<open>\<open>load_board\<close>, from the text that \<open>file.read()\<close> returned.\<close>

definition load_board :: "nat \<Rightarrow> string \<Rightarrow> heap \<Rightarrow> (error + unit) \<times> heap" where
  "load_board self board_raw h = load_lines self 0 (splitlines board_raw) h"

section \<open>Well-formed boards\<close>

text \<open>
  The coordinates of the board, and the boards that \<open>Board()\<close> builds: the object is
  in the store, its nine slots hold references to nine different \<open>Section\<close> objects
  of nine slots each, none of them the board itself. \<open>section_index\<close> and
  \<open>slot_index\<close> are the positions that \<open>get_at\<close> reads for the coordinates
  \<open>(x // 3, y // 3)\<close> and \<open>(x % 3, y % 3)\<close>, and \<open>section_of\<close> is the \<open>Section\<close> that
  holds the cell \<open>(x, y)\<close>.
\<close>

definition in_range :: "int \<Rightarrow> int \<Rightarrow> bool" where
  "in_range x y = (0 \<le> x \<and> x \<le> 8 \<and> 0 \<le> y \<and> y \<le> 8)"

definition is_section_ref :: "nat \<Rightarrow> heap \<Rightarrow> pyval \<Rightarrow> bool" where
  "is_section_ref b h v =
     (case v of PRef s \<Rightarrow> s < length h \<and> s \<noteq> b \<and> length (h ! s) = 9 | _ \<Rightarrow> False)"

definition wf_board :: "nat \<Rightarrow> heap \<Rightarrow> bool" where
  "wf_board b h =
     (b < length h \<and> length (h ! b) = 9 \<and> distinct (h ! b) \<and> list_all (is_section_ref b h) (h ! b))"

definition section_index :: "int \<Rightarrow> int \<Rightarrow> nat" where
  "section_index x y = nat (x div 3 + y div 3 * 3)"

definition slot_index :: "int \<Rightarrow> int \<Rightarrow> nat" where
  "slot_index x y = nat (x mod 3 + y mod 3 * 3)"

definition section_of :: "nat \<Rightarrow> int \<Rightarrow> int \<Rightarrow> heap \<Rightarrow> nat" where
  "section_of b x y h = (case h ! b ! section_index x y of PRef s \<Rightarrow> s | _ \<Rightarrow> b)"


section \<open>Units of the board\<close>

text \<open>
  The value that a well-formed board holds at \<open>(x, y)\<close>; the integers among a list of
  cell values; the cells of a box, read through \<open>get_board_item\<close> as \<open>get_row\<close> and
  \<open>get_column\<close> read theirs. \<open>digit_cells\<close> says that every integer of a list of cells
  is a digit from 1 to 9, and \<open>no_repeated_digit\<close> that none of the digits 1 to 9 is
  held by two cells of the list.
\<close>

definition cell :: "nat \<Rightarrow> int \<Rightarrow> int \<Rightarrow> heap \<Rightarrow> pyval" where
  "cell b x y h = h ! section_of b x y h ! slot_index x y"

fun ints_of :: "pyval list \<Rightarrow> int list" where
  "ints_of [] = []"
| "ints_of (PInt n # vs) = n # ints_of vs"
| "ints_of (v # vs) = ints_of vs"

definition digit_cells :: "pyval list \<Rightarrow> bool" where
  "digit_cells cells = list_all (\<lambda>v. case v of PInt n \<Rightarrow> 1 \<le> n \<and> n \<le> 9 | _ \<Rightarrow> True) cells"

definition no_repeated_digit :: "pyval list \<Rightarrow> bool" where
  "no_repeated_digit cells = list_all (\<lambda>d. count_list cells (PInt d) \<le> 1) [1..9]"


section \<open>Properties of a whole board\<close>

text \<open>
  The statements about \<open>is_valid\<close> and \<open>is_solved\<close> compare them with these predicates:
  all 27 unit checks return \<open>True\<close>; every integer on the board is a digit from 1 to
  9; every cell is \<open>None\<close> or such a digit; every cell is occupied in the sense of
  \<open>contains_value\<close>; every cell, or some cell, is \<open>None\<close>.
\<close>

definition all_units_valid :: "nat \<Rightarrow> heap \<Rightarrow> bool" where
  "all_units_valid b h =
     (list_all (\<lambda>x. is_line_valid_vertical b x h = Inr True) (range_py 9) \<and>
      list_all (\<lambda>y. is_line_valid_horizontal b y h = Inr True) (range_py 9) \<and>
      list_all (\<lambda>(mx, my). is_section_valid b mx my h = Inr True) (nested_range 3 3))"

definition digit_board :: "nat \<Rightarrow> heap \<Rightarrow> bool" where
  "digit_board b h =
     list_all (\<lambda>(x, y). case get_board_item b x y h of
                          Inr (PInt n) \<Rightarrow> 1 \<le> n \<and> n \<le> 9
                        | _ \<Rightarrow> True)
       (nested_range 9 9)"





section \<open>Example boards\<close>

text \<open>
  The board that \<open>Board()\<close> builds in an empty store (it is object 0); that board with
  a 5 at \<open>(0, 0)\<close> and at \<open>(3, 0)\<close>; the board loaded from a completed grid.
\<close>

definition empty_board :: heap where
  "empty_board = snd (Board_init [])"

definition row_clash_board :: heap where
  "row_clash_board =
     snd (set_board_item 0 (PInt 5) 3 0 (snd (set_board_item 0 (PInt 5) 0 0 empty_board)))"

definition solution_text :: string where
  "solution_text =
     ''123456789'' @ [CHR 0x0A] @ ''456789123'' @ [CHR 0x0A] @ ''789123456'' @ [CHR 0x0A] @
     ''234567891'' @ [CHR 0x0A] @ ''567891234'' @ [CHR 0x0A] @ ''891234567'' @ [CHR 0x0A] @
     ''345678912'' @ [CHR 0x0A] @ ''678912345'' @ [CHR 0x0A] @ ''912345678'' @ [CHR 0x0A]"

definition solution_board :: heap where
  "solution_board = snd (load_board 0 solution_text empty_board)"

section \<open>Copying a board\<close>

text \<open>The slots of the board that \<open>Board()\<close> builds when the store holds \<open>n\<close> objects.\<close>

definition new_slots :: "nat \<Rightarrow> pyval list" where
  "new_slots n =
     [PRef (n + 1), PRef (n + 4), PRef (n + 7), PRef (n + 2), PRef (n + 5), PRef (n + 8),
      PRef (n + 3), PRef (n + 6), PRef (n + 9)]"

text \<open>
  What holds of the store \<open>H\<close> while \<open>get_copy\<close> fills the new board, \<open>h\<close> being the
  store \<open>get_copy\<close> started from: the objects of \<open>h\<close> are as they were, the next
  object is the new board, and the nine after it are its sections.
\<close>

definition copy_inv :: "heap \<Rightarrow> heap \<Rightarrow> bool" where
  "copy_inv h H =
     (length H = length h + 10 \<and> take (length h) H = h \<and>
      H ! length h = new_slots (length h) \<and>
      list_all (\<lambda>k. length (H ! (length h + k)) = 9) [1..<10])"

section \<open>Addressing\<close>

lemma div3_bounds: "0 \<le> x \<Longrightarrow> x \<le> 8 \<Longrightarrow> 0 \<le> x div 3 \<and> x div 3 \<le> (2::int)"
  by presburger

lemma mod3_bounds: "0 \<le> x mod 3 \<and> x mod 3 \<le> (2::int)"
  by presburger

lemma base3_inj:
  "0 \<le> a \<Longrightarrow> a \<le> 2 \<Longrightarrow> 0 \<le> a' \<Longrightarrow> a' \<le> 2 \<Longrightarrow> a + b * 3 = a' + b' * 3 \<Longrightarrow>
   a = a' \<and> b = (b'::int)"
  by presburger

lemma section_bounds:
  assumes "in_range x y"
  shows "0 \<le> x div 3 + y div 3 * 3" and "x div 3 + y div 3 * 3 < 9"
  using assms div3_bounds [of x] div3_bounds [of y] unfolding in_range_def by linarith+

lemma slot_bounds: "0 \<le> x mod 3 + y mod 3 * 3" and "x mod 3 + y mod 3 * 3 < (9::int)"
  using mod3_bounds [of x] mod3_bounds [of y] by linarith+

lemma section_index_less: "in_range x y \<Longrightarrow> section_index x y < 9"
  using section_bounds [of x y] by (simp add: section_index_def)

lemma slot_index_less: "slot_index x y < 9"
  using slot_bounds [of x y] by (simp add: slot_index_def)

lemma index_inj:
  assumes "in_range x y" "in_range x' y'"
    and "section_index x y = section_index x' y'" "slot_index x y = slot_index x' y'"
  shows "x = x' \<and> y = y'"
proof -
  have e1: "x div 3 + y div 3 * 3 = x' div 3 + y' div 3 * 3"
    using assms(3) section_bounds(1) [OF assms(1)] section_bounds(1) [OF assms(2)]
    by (simp add: section_index_def eq_nat_nat_iff)
  have e2: "x mod 3 + y mod 3 * 3 = x' mod 3 + y' mod 3 * 3"
    using assms(4) slot_bounds(1) [of x y] slot_bounds(1) [of x' y']
    by (simp add: slot_index_def eq_nat_nat_iff)
  have d: "0 \<le> x div 3 \<and> x div 3 \<le> 2" "0 \<le> y div 3 \<and> y div 3 \<le> 2"
    "0 \<le> x' div 3 \<and> x' div 3 \<le> 2" "0 \<le> y' div 3 \<and> y' div 3 \<le> 2"
    using assms(1,2) by (simp_all add: in_range_def div3_bounds)
  have m: "0 \<le> x mod 3 \<and> x mod 3 \<le> 2" "0 \<le> y mod 3 \<and> y mod 3 \<le> 2"
    "0 \<le> x' mod 3 \<and> x' mod 3 \<le> 2" "0 \<le> y' mod 3 \<and> y' mod 3 \<le> 2"
    by (rule mod3_bounds)+
  have q: "x div 3 = x' div 3 \<and> y div 3 = y' div 3"
    using e1 d(1,3) by (intro base3_inj) simp_all
  have r: "x mod 3 = x' mod 3 \<and> y mod 3 = y' mod 3"
    using e2 m(1,3) by (intro base3_inj) simp_all
  have "x = 3 * (x div 3) + x mod 3" "x' = 3 * (x' div 3) + x' mod 3"
    "y = 3 * (y div 3) + y mod 3" "y' = 3 * (y' div 3) + y' mod 3"
    by simp_all
  then show ?thesis using q r by metis
qed

lemma py_index_nonneg: "0 \<le> i \<Longrightarrow> i < int (length xs) \<Longrightarrow> py_index xs i = Some (nat i)"
  by (simp add: py_index_def)

lemma get_at_section:
  assumes "wf_board b h" "in_range x y"
  shows "get_at b (x div 3) (y div 3) h = Inr (PRef (section_of b x y h))"
    and "section_of b x y h < length h"
    and "section_of b x y h \<noteq> b"
    and "length (h ! section_of b x y h) = 9"
proof -
  from assms(2) have r: "0 \<le> x div 3" "x div 3 \<le> 2" "0 \<le> y div 3" "y div 3 \<le> 2"
    using div3_bounds [of x] div3_bounds [of y] unfolding in_range_def by simp_all
  have i: "section_index x y < 9" using assms(2) by (rule section_index_less)
  from assms(1) have b: "b < length h" "length (h ! b) = 9" "list_all (is_section_ref b h) (h ! b)"
    by (simp_all add: wf_board_def)
  from b(2,3) i have s: "is_section_ref b h (h ! b ! section_index x y)"
    by (simp add: list_all_length)
  then obtain s where e: "h ! b ! section_index x y = PRef s"
    by (cases "h ! b ! section_index x y") (simp_all add: is_section_ref_def)
  with s show "section_of b x y h < length h" "section_of b x y h \<noteq> b"
    "length (h ! section_of b x y h) = 9"
    by (simp_all add: section_of_def is_section_ref_def)
  have "x div 3 + y div 3 * 3 < 9" using r by linarith
  then have "py_index (h ! b) (x div 3 + y div 3 * 3) = Some (section_index x y)"
    using r b(2) by (simp add: py_index_nonneg section_index_def)
  then show "get_at b (x div 3) (y div 3) h = Inr (PRef (section_of b x y h))"
    using r b(1) e by (simp add: get_at_def slots_of_def list_getitem_def section_of_def)
qed

lemma slot_py_index:
  assumes "length sl = 9"
  shows "py_index sl (x mod 3 + y mod 3 * 3) = Some (slot_index x y)"
  unfolding slot_index_def
proof (rule py_index_nonneg)
  show "0 \<le> x mod 3 + y mod 3 * 3" by (rule slot_bounds)
  show "x mod 3 + y mod 3 * 3 < int (length sl)"
    by (simp only: assms of_nat_numeral slot_bounds)
qed

lemma get_board_item_wf:
  assumes "wf_board b h" "in_range x y"
  shows "get_board_item b x y h = Inr (h ! section_of b x y h ! slot_index x y)"
proof -
  have m: "0 \<le> x mod 3" "x mod 3 \<le> 2" "0 \<le> y mod 3" "y mod 3 \<le> 2"
    using mod3_bounds [of x] mod3_bounds [of y] by simp_all
  note s = get_at_section [OF assms]
  show ?thesis
    using assms(2) m s
    by (simp add: get_board_item_def in_range_def call_get_at_def get_at_def slots_of_def
        list_getitem_def slot_py_index)
qed

lemma set_board_item_wf:
  assumes "wf_board b h" "in_range x y"
  shows "set_board_item b v x y h =
         (Inr (), h[section_of b x y h := (h ! section_of b x y h)[slot_index x y := v]])"
  using get_at_section [OF assms]
  by (simp add: set_board_item_def call_set_at_def set_at_def slots_of_def
      list_setitem_def slot_py_index)

lemma section_of_inj:
  assumes "wf_board b h" "in_range x y" "in_range x' y'"
    and "section_of b x y h = section_of b x' y' h"
  shows "section_index x y = section_index x' y'"
proof -
  from assms(1) have b: "length (h ! b) = 9" "distinct (h ! b)" "list_all (is_section_ref b h) (h ! b)"
    by (simp_all add: wf_board_def)
  have i: "section_index x y < 9" "section_index x' y' < 9"
    using assms(2,3) by (simp_all add: section_index_less)
  have "is_section_ref b h (h ! b ! section_index x y)" "is_section_ref b h (h ! b ! section_index x' y')"
    using b i by (simp_all add: list_all_length)
  then have "h ! b ! section_index x y = h ! b ! section_index x' y'"
    using assms(4)
    by (auto simp: section_of_def is_section_ref_def split: pyval.splits)
  then show ?thesis using b i by (simp add: nth_eq_iff_index_eq)
qed

lemma wf_board_update:
  assumes "wf_board b h" "s \<noteq> b" "length sl = length (h ! s)"
  shows "wf_board b (h[s := sl])"
proof -
  have "is_section_ref b (h[s := sl]) v = is_section_ref b h v" for v
  proof (cases v)
    case (PRef r)
    have "length (h[s := sl] ! r) = length (h ! r)"
      using assms(3) by (cases "s < length h") (simp_all add: nth_list_update list_update_beyond)
    then show ?thesis by (simp add: is_section_ref_def PRef)
  qed (simp_all add: is_section_ref_def)
  then have "is_section_ref b (h[s := sl]) = is_section_ref b h" by (rule ext)
  then show ?thesis using assms by (simp add: wf_board_def)
qed

lemma set_board_item_out_of_range:
  assumes "\<not> in_range x y"
  shows "set_board_item self v x y h = (Inl IndexError, h)"
proof -
  have "\<not> (0 \<le> x div 3 \<and> x div 3 \<le> 2 \<and> 0 \<le> y div 3 \<and> y div 3 \<le> 2)"
    using assms unfolding in_range_def by presburger
  then have "get_at self (x div 3) (y div 3) h = Inl IndexError"
    by (simp add: get_at_def)
  then show ?thesis by (simp add: set_board_item_def)
qed

lemma get_board_item_out_of_range:
  "\<not> in_range x y \<Longrightarrow> get_board_item self x y h = Inl IndexError"
  by (simp add: get_board_item_def in_range_def)

lemma range_py_9: "range_py 9 = [0, 1, 2, 3, 4, 5, 6, 7, 8]"
  by code_simp

section \<open>The loop over a unit\<close>


lemma get_board_item_cell:
  "wf_board b h \<Longrightarrow> in_range x y \<Longrightarrow> get_board_item b x y h = Inr (cell b x y h)"
  by (simp add: get_board_item_wf cell_def)

lemma nested_range_3:
  "nested_range 3 3 = [(0,0), (0,1), (0,2), (1,0), (1,1), (1,2), (2,0), (2,1), (2,2)]"
  by code_simp

lemma count_ints_of: "count_list (ints_of vs) d = count_list vs (PInt d)"
  by (induction vs rule: ints_of.induct) simp_all

lemma set_ints_of: "set (ints_of vs) = {n. PInt n \<in> set vs}"
  by (induction vs rule: ints_of.induct) auto

lemma distinct_count_list: "distinct xs = (\<forall>x\<in>set xs. count_list xs x \<le> 1)"
proof (induction xs)
  case Nil
  show ?case by simp
next
  case (Cons a xs)
  show ?case
  proof (cases "a \<in> set xs")
    case True
    then have "count_list xs a \<noteq> 0" by (simp add: count_list_0_iff)
    with True show ?thesis by auto
  next
    case False
    then show ?thesis using Cons by (auto simp: count_list_0_iff)
  qed
qed

lemma digit_cells_ints: "digit_cells vs \<Longrightarrow> n \<in> set (ints_of vs) \<Longrightarrow> 1 \<le> n \<and> n \<le> 9"
  by (auto simp: digit_cells_def list_all_iff set_ints_of split: pyval.splits)

lemma no_repeated_digit_distinct:
  assumes "digit_cells vs"
  shows "no_repeated_digit vs = distinct (ints_of vs)"
proof -
  have "no_repeated_digit vs = (\<forall>d\<in>{1..9}. count_list (ints_of vs) d \<le> 1)"
    by (simp add: no_repeated_digit_def list_all_iff count_ints_of)
  also have "\<dots> = (\<forall>d\<in>set (ints_of vs). count_list (ints_of vs) d \<le> 1)"
    using digit_cells_ints [OF assms] by (auto simp: count_list_0_iff)
  finally show ?thesis by (simp add: distinct_count_list)
qed

lemma taken_index:
  assumes "1 \<le> n" "n \<le> 9" "length taken = 9"
  shows "py_index taken (n - 1) = Some (nat (n - 1))"
  using assms by (simp add: py_index_def)

lemma taken_loop_correct:
  assumes "\<And>c. c \<in> set cs \<Longrightarrow> get c = Inr (val c)"
    and "digit_cells (map val cs)"
    and "length taken = 9"
    and "\<And>k. k < 9 \<Longrightarrow> taken ! k = 0 \<or> taken ! k = 1"
    and "\<not> tst 0" "tst 1"
  shows "taken_loop tst get cs taken =
         Inr (distinct (ints_of (map val cs)) \<and>
              (\<forall>n\<in>set (ints_of (map val cs)). taken ! nat (n - 1) = 0))"
  using assms(1-4)
proof (induction cs arbitrary: taken)
  case Nil
  show ?case by simp
next
  case (Cons c cs)
  have g: "get c = Inr (val c)" by (simp add: Cons.prems(1))
  have dc: "digit_cells (map val cs)" using Cons.prems(2) by (simp add: digit_cells_def)
  show ?case
  proof (cases "val c")
    case (PInt n)
    then have n: "1 \<le> n" "n \<le> 9" using Cons.prems(2) by (simp_all add: digit_cells_def)
    let ?k = "nat (n - 1)"
    have k: "?k < 9" using n by simp
    note ix = taken_index [OF n Cons.prems(3)]
    show ?thesis
    proof (cases "taken ! ?k = 0")
      case False
      then have "taken ! ?k = 1" using Cons.prems(4) [OF k] by simp
      then show ?thesis
        using g PInt ix assms(6) by (simp add: list_getitem_def)
    next
      case True
      let ?taken' = "taken[?k := 1]"
      have ih: "taken_loop tst get cs ?taken' =
         Inr (distinct (ints_of (map val cs)) \<and>
              (\<forall>m\<in>set (ints_of (map val cs)). ?taken' ! nat (m - 1) = 0))"
      proof (rule Cons.IH)
        show "\<And>c. c \<in> set cs \<Longrightarrow> get c = Inr (val c)" by (simp add: Cons.prems(1))
        show "digit_cells (map val cs)" by (rule dc)
        show "length ?taken' = 9" using Cons.prems(3) by simp
        fix j :: nat
        assume j: "j < 9"
        show "?taken' ! j = 0 \<or> ?taken' ! j = 1"
          using Cons.prems(4) [OF j] j Cons.prems(3) by (cases "j = ?k") simp_all
      qed
      have upd: "(?taken' ! nat (m - 1) = 0) = (m \<noteq> n \<and> taken ! nat (m - 1) = 0)"
        if "m \<in> set (ints_of (map val cs))" for m
      proof -
        have m: "1 \<le> m" "m \<le> 9" using digit_cells_ints [OF dc that] by simp_all
        then have "(nat (m - 1) = ?k) = (m = n)" using n by auto
        then show ?thesis using k Cons.prems(3) by (auto simp: nth_list_update)
      qed
      have "taken_loop tst get (c # cs) taken = taken_loop tst get cs ?taken'"
        using g PInt ix True assms(5) by (simp add: list_getitem_def list_setitem_def)
      then show ?thesis using ih upd PInt True by auto
    qed
  next
    case PNone
    then show ?thesis using g Cons.IH [OF Cons.prems(1) dc Cons.prems(3,4)] by simp
  next
    case (PList l)
    then show ?thesis using g Cons.IH [OF Cons.prems(1) dc Cons.prems(3,4)] by simp
  next
    case (PRef r)
    then show ?thesis using g Cons.IH [OF Cons.prems(1) dc Cons.prems(3,4)] by simp
  qed
qed

lemma taken_loop_fresh:
  assumes "\<And>c. c \<in> set cs \<Longrightarrow> get c = Inr (val c)"
    and "digit_cells (map val cs)"
    and "\<not> tst 0" "tst 1"
  shows "taken_loop tst get cs (replicate 9 0) = Inr (no_repeated_digit (map val cs))"
proof -
  have "taken_loop tst get cs (replicate 9 0) =
         Inr (distinct (ints_of (map val cs)) \<and>
              (\<forall>n\<in>set (ints_of (map val cs)). replicate 9 (0::int) ! nat (n - 1) = 0))"
    using assms(1,2) by (rule taken_loop_correct) (simp_all add: assms)
  moreover have "replicate 9 (0::int) ! nat (n - 1) = 0" if "n \<in> set (ints_of (map val cs))" for n
  proof (rule nth_replicate)
    show "nat (n - 1) < 9" using digit_cells_ints [OF assms(2) that] by linarith
  qed
  ultimately show ?thesis by (simp add: no_repeated_digit_distinct [OF assms(2)])
qed

lemma set_range_py: "set (range_py n) = {0..n - 1}"
  by (simp add: range_py_def)


lemma set_nested_range: "set (nested_range m n) = {0..m - 1} \<times> {0..n - 1}"
  by (simp add: nested_range_def set_range_py)






lemma is_line_valid_horizontal_wf:
  assumes "wf_board b h" "0 \<le> y" "y \<le> 8"
    and "digit_cells (map (\<lambda>x. cell b x y h) (range_py 9))"
  shows "is_line_valid_horizontal b y h =
         Inr (no_repeated_digit (map (\<lambda>x. cell b x y h) (range_py 9)))"
  unfolding is_line_valid_horizontal_def
proof (rule taken_loop_fresh)
  fix x assume "x \<in> set (range_py 9)"
  then have "in_range x y" using assms(2,3) by (simp add: set_range_py in_range_def)
  then show "get_board_item b x y h = Inr (cell b x y h)"
    using assms(1) by (simp add: get_board_item_cell)
qed (simp_all add: assms(4))

lemma is_line_valid_vertical_wf:
  assumes "wf_board b h" "0 \<le> x" "x \<le> 8"
    and "digit_cells (map (\<lambda>y. cell b x y h) (range_py 9))"
  shows "is_line_valid_vertical b x h =
         Inr (no_repeated_digit (map (\<lambda>y. cell b x y h) (range_py 9)))"
  unfolding is_line_valid_vertical_def
proof (rule taken_loop_fresh)
  fix y assume "y \<in> set (range_py 9)"
  then have "in_range x y" using assms(2,3) by (simp add: set_range_py in_range_def)
  then show "get_board_item b x y h = Inr (cell b x y h)"
    using assms(1) by (simp add: get_board_item_cell)
qed (simp_all add: assms(4))

lemma box_coordinates:
  assumes "0 \<le> m" "m \<le> 2" "0 \<le> x" "x \<le> (2::int)"
  shows "(m * 3 + x) div 3 = m" and "(m * 3 + x) mod 3 = x"
    and "0 \<le> m * 3 + x" and "m * 3 + x \<le> 8"
  using assms by simp_all

lemma box_in_range:
  assumes "0 \<le> mx" "mx \<le> 2" "0 \<le> my" "my \<le> 2" "(x, y) \<in> set (nested_range 3 3)"
  shows "in_range (mx * 3 + x) (my * 3 + y)"
  using assms by (simp add: set_nested_range in_range_def)

lemma box_cell:
  assumes "0 \<le> mx" "mx \<le> 2" "0 \<le> my" "my \<le> 2" "(x, y) \<in> set (nested_range 3 3)"
  shows "get_board_item b (mx * 3 + x) (my * 3 + y) h =
         (case get_at b mx my h of Inl e \<Rightarrow> Inl e | Inr sec \<Rightarrow> call_get_at sec x y h)"
proof -
  have xy: "0 \<le> x" "x \<le> 2" "0 \<le> y" "y \<le> 2" using assms(5) by (simp_all add: set_nested_range)
  note cx = box_coordinates [OF assms(1,2) xy(1,2)]
  note cy = box_coordinates [OF assms(3,4) xy(3,4)]
  show ?thesis
    unfolding get_board_item_def cx(1,2) cy(1,2) using cx(3,4) cy(3,4) by simp
qed

lemma get_at_box:
  assumes "wf_board b h" "0 \<le> mx" "mx \<le> 2" "0 \<le> my" "my \<le> 2"
  shows "get_at b mx my h = Inr (PRef (section_of b (mx * 3) (my * 3) h))"
proof -
  have "in_range (mx * 3) (my * 3)" using assms(2-5) by (simp add: in_range_def)
  from get_at_section(1) [OF assms(1) this] show ?thesis by simp
qed


lemma is_section_valid_wf:
  assumes "wf_board b h" "0 \<le> mx" "mx \<le> 2" "0 \<le> my" "my \<le> 2"
    and "digit_cells (map (\<lambda>(x, y). cell b (mx * 3 + x) (my * 3 + y) h) (nested_range 3 3))"
  shows "is_section_valid b mx my h =
         Inr (no_repeated_digit
                (map (\<lambda>(x, y). cell b (mx * 3 + x) (my * 3 + y) h) (nested_range 3 3)))"
proof -
  let ?sec = "PRef (section_of b (mx * 3) (my * 3) h)"
  have g: "get_at b mx my h = Inr ?sec" using assms(1-5) by (rule get_at_box)
  have "taken_loop (\<lambda>t. t > 0) (\<lambda>(x, y). call_get_at ?sec x y h) (nested_range 3 3) (replicate 9 0) =
        Inr (no_repeated_digit
               (map (\<lambda>(x, y). cell b (mx * 3 + x) (my * 3 + y) h) (nested_range 3 3)))"
  proof (rule taken_loop_fresh)
    fix c assume c: "c \<in> set (nested_range 3 3)"
    obtain x y where p: "c = (x, y)" by (cases c)
    have r: "in_range (mx * 3 + x) (my * 3 + y)"
      using assms(2-5) c unfolding p by (rule box_in_range)
    have "call_get_at ?sec x y h = get_board_item b (mx * 3 + x) (my * 3 + y) h"
      using box_cell [OF assms(2-5) c [unfolded p], of b h] g by simp
    then show "(case c of (x, y) \<Rightarrow> call_get_at ?sec x y h) =
               Inr (case c of (x, y) \<Rightarrow> cell b (mx * 3 + x) (my * 3 + y) h)"
      using assms(1) r by (simp add: p get_board_item_cell)
  qed (simp_all add: assms(6))
  then show ?thesis using g by (simp add: is_section_valid_def)
qed

section \<open>The scans of is_valid and is_solved\<close>

lemma return_false_unless_True:
  "(return_false_unless chk as = Inr True) = (\<forall>a\<in>set as. chk a = Inr True)"
proof (induction as)
  case Nil
  show ?case by simp
next
  case (Cons a as)
  show ?case
  proof (cases "chk a")
    case (Inl e)
    then show ?thesis by simp
  next
    case (Inr ok)
    then show ?thesis using Cons by (cases ok) simp_all
  qed
qed

lemma return_false_unless_total:
  assumes "\<And>a. a \<in> set as \<Longrightarrow> \<exists>ok. chk a = Inr ok"
  shows "return_false_unless chk as = Inr (\<forall>a\<in>set as. chk a = Inr True)"
  using assms
proof (induction as)
  case Nil
  show ?case by simp
next
  case (Cons a as)
  obtain ok where ok: "chk a = Inr ok" using Cons.prems [of a] by auto
  have "return_false_unless chk as = Inr (\<forall>a\<in>set as. chk a = Inr True)"
    using Cons.prems by (intro Cons.IH) simp
  then show ?case using ok by (cases ok) simp_all
qed

lemma in_nested_range_9: "((x, y) \<in> set (nested_range 9 9)) = in_range x y"
  by (auto simp: set_nested_range in_range_def)

lemma is_valid_True: "(is_valid b h = Inr True) = all_units_valid b h"
proof -
  let ?v = "return_false_unless (\<lambda>x. is_line_valid_vertical b x h) (range_py 9)"
  let ?h = "return_false_unless (\<lambda>y. is_line_valid_horizontal b y h) (range_py 9)"
  let ?s = "return_false_unless (\<lambda>(x, y). is_section_valid b x y h) (nested_range 3 3)"
  have "(is_valid b h = Inr True) = (?v = Inr True \<and> ?h = Inr True \<and> ?s = Inr True)"
    unfolding is_valid_def by (auto split: sum.splits bool.splits)
  then show ?thesis
    by (simp add: return_false_unless_True all_units_valid_def list_all_iff split_beta)
qed

lemma digit_board_cell:
  assumes "wf_board b h" "digit_board b h" "in_range x y" "cell b x y h = PInt n"
  shows "1 \<le> n \<and> n \<le> 9"
proof -
  have "(x, y) \<in> set (nested_range 9 9)" using assms(3) by (simp add: in_nested_range_9)
  then have "case get_board_item b x y h of Inr (PInt n) \<Rightarrow> 1 \<le> n \<and> n \<le> 9 | _ \<Rightarrow> True"
    using assms(2) by (auto simp: digit_board_def list_all_iff)
  then show ?thesis using assms(1,3,4) by (simp add: get_board_item_cell)
qed

lemma digit_cells_map:
  assumes "\<And>c n. c \<in> set cs \<Longrightarrow> val c = PInt n \<Longrightarrow> 1 \<le> n \<and> n \<le> 9"
  shows "digit_cells (map val cs)"
  using assms by (auto simp: digit_cells_def list_all_iff split: pyval.splits)

lemma digit_row:
  assumes "wf_board b h" "digit_board b h" "0 \<le> y" "y \<le> 8"
  shows "digit_cells (map (\<lambda>x. cell b x y h) (range_py 9))"
proof (rule digit_cells_map)
  fix x n assume "x \<in> set (range_py 9)" and c: "cell b x y h = PInt n"
  then have "in_range x y" using assms(3,4) by (simp add: set_range_py in_range_def)
  with assms(1,2) show "1 \<le> n \<and> n \<le> 9" using c by (rule digit_board_cell)
qed

lemma digit_column:
  assumes "wf_board b h" "digit_board b h" "0 \<le> x" "x \<le> 8"
  shows "digit_cells (map (\<lambda>y. cell b x y h) (range_py 9))"
proof (rule digit_cells_map)
  fix y n assume "y \<in> set (range_py 9)" and c: "cell b x y h = PInt n"
  then have "in_range x y" using assms(3,4) by (simp add: set_range_py in_range_def)
  with assms(1,2) show "1 \<le> n \<and> n \<le> 9" using c by (rule digit_board_cell)
qed

lemma digit_box:
  assumes "wf_board b h" "digit_board b h" "0 \<le> mx" "mx \<le> 2" "0 \<le> my" "my \<le> 2"
  shows "digit_cells (map (\<lambda>(x, y). cell b (mx * 3 + x) (my * 3 + y) h) (nested_range 3 3))"
proof (rule digit_cells_map)
  fix c n assume c: "c \<in> set (nested_range 3 3)"
    and v: "(case c of (x, y) \<Rightarrow> cell b (mx * 3 + x) (my * 3 + y) h) = PInt n"
  obtain x y where p: "c = (x, y)" by (cases c)
  have "in_range (mx * 3 + x) (my * 3 + y)"
    using assms(3-6) c unfolding p by (rule box_in_range)
  with assms(1,2) show "1 \<le> n \<and> n \<le> 9" using v unfolding p by (simp add: digit_board_cell)
qed

lemma is_valid_wf:
  assumes "wf_board b h" "digit_board b h"
  shows "is_valid b h = Inr (all_units_valid b h)"
proof -
  let ?v = "return_false_unless (\<lambda>x. is_line_valid_vertical b x h) (range_py 9)"
  let ?h = "return_false_unless (\<lambda>y. is_line_valid_horizontal b y h) (range_py 9)"
  let ?s = "return_false_unless (\<lambda>(x, y). is_section_valid b x y h) (nested_range 3 3)"
  have v: "?v = Inr (\<forall>x\<in>set (range_py 9). is_line_valid_vertical b x h = Inr True)"
  proof (rule return_false_unless_total)
    fix x assume "x \<in> set (range_py 9)"
    then have x: "0 \<le> x" "x \<le> 8" by (simp_all add: set_range_py)
    show "\<exists>ok. is_line_valid_vertical b x h = Inr ok"
      using is_line_valid_vertical_wf [OF assms(1) x digit_column [OF assms x]] by simp
  qed
  have h: "?h = Inr (\<forall>y\<in>set (range_py 9). is_line_valid_horizontal b y h = Inr True)"
  proof (rule return_false_unless_total)
    fix y assume "y \<in> set (range_py 9)"
    then have y: "0 \<le> y" "y \<le> 8" by (simp_all add: set_range_py)
    show "\<exists>ok. is_line_valid_horizontal b y h = Inr ok"
      using is_line_valid_horizontal_wf [OF assms(1) y digit_row [OF assms y]] by simp
  qed
  have s: "?s = Inr (\<forall>c\<in>set (nested_range 3 3).
                        (case c of (x, y) \<Rightarrow> is_section_valid b x y h) = Inr True)"
  proof (rule return_false_unless_total)
    fix c assume c: "c \<in> set (nested_range 3 3)"
    obtain mx my where p: "c = (mx, my)" by (cases c)
    have m: "0 \<le> mx" "mx \<le> 2" "0 \<le> my" "my \<le> 2"
      using c unfolding p by (simp_all add: set_nested_range)
    show "\<exists>ok. (case c of (x, y) \<Rightarrow> is_section_valid b x y h) = Inr ok"
      using is_section_valid_wf [OF assms(1) m digit_box [OF assms m]] by (simp add: p)
  qed
  show ?thesis
  proof (cases "all_units_valid b h")
    case True
    then show ?thesis by (simp add: is_valid_True)
  next
    case False
    then have "\<not> ((\<forall>x\<in>set (range_py 9). is_line_valid_vertical b x h = Inr True) \<and>
                 (\<forall>y\<in>set (range_py 9). is_line_valid_horizontal b y h = Inr True) \<and>
                 (\<forall>c\<in>set (nested_range 3 3).
                        (case c of (x, y) \<Rightarrow> is_section_valid b x y h) = Inr True))"
      by (simp add: all_units_valid_def list_all_iff split_beta)
    then have "is_valid b h = Inr False"
      unfolding is_valid_def v h s by (auto split: bool.splits)
    then show ?thesis using False by simp
  qed
qed














section \<open>The example boards are well formed\<close>


lemma wf_row_clash_board: "wf_board 0 row_clash_board"
  by code_simp

lemma wf_solution_board: "wf_board 0 solution_board"
  by code_simp

section \<open>Construction and copy of a board\<close>

lemma set_at_in_range:
  assumes "self < length h" "length (h ! self) = 9" "0 \<le> x" "x \<le> 2" "0 \<le> y" "y \<le> 2"
  shows "set_at self item x y h = (Inr (), h[self := (h ! self)[nat (x + y * 3) := item]])"
proof -
  have "0 \<le> x + y * 3" "x + y * 3 < 9" using assms(3-6) by linarith+
  then have "py_index (h ! self) (x + y * 3) = Some (nat (x + y * 3))"
    using assms(2) by (simp add: py_index_nonneg)
  then show ?thesis using assms(1) by (simp add: set_at_def slots_of_def list_setitem_def)
qed

lemma set_sections_step:
  assumes "length sl = 9" "0 \<le> x" "x \<le> 2" "0 \<le> y" "y \<le> 2"
  shows "set_sections_loop (length h) ((x, y) # cs) (h @ sl # secs) =
         set_sections_loop (length h) cs
           (h @ sl[nat (x + y * 3) := PRef (Suc (length h + length secs))] #
              (secs @ [replicate 9 PNone]))"
proof -
  let ?h1 = "(h @ sl # secs) @ [replicate 9 PNone]"
  have "set_at (length h) (PRef (length (h @ sl # secs))) x y ?h1 =
        (Inr (), ?h1[length h := (?h1 ! length h)[nat (x + y * 3) := PRef (length (h @ sl # secs))]])"
    using assms by (intro set_at_in_range) (simp_all add: nth_append)
  moreover have "?h1[length h := (?h1 ! length h)[nat (x + y * 3) := PRef (length (h @ sl # secs))]] =
        h @ sl[nat (x + y * 3) := PRef (Suc (length h + length secs))] #
              (secs @ [replicate 9 PNone])"
    by (simp add: nth_append list_update_append)
  ultimately show ?thesis by (simp add: Section_init_def)
qed

lemma Board_init_result:
  "Board_init h =
     (Inr (length h), h @ new_slots (length h) # replicate 9 (replicate 9 PNone))"
proof -
  have "set_sections_loop (length h) (nested_range 3 3) (h @ replicate 9 PNone # []) =
        (Inr (), h @ new_slots (length h) # replicate 9 (replicate 9 PNone))"
    unfolding nested_range_3
    by (simp add: set_sections_step new_slots_def numeral_eq_Suc
        del: set_sections_loop.simps(2))
  then show ?thesis
    by (simp add: Board_init_def Section_init_def set_sections_def)
qed

lemma get_board_item_cong:
  assumes "wf_board b h" "b < length H" "H ! b = h ! b"
    and "\<And>s. PRef s \<in> set (h ! b) \<Longrightarrow> s < length H \<and> H ! s = h ! s"
  shows "wf_board b H" and "get_board_item b x y H = get_board_item b x y h"
proof -
  from assms(1) have w: "length (h ! b) = 9" "distinct (h ! b)"
    "list_all (is_section_ref b h) (h ! b)"
    by (simp_all add: wf_board_def)
  have "is_section_ref b H v" if "v \<in> set (h ! b)" for v
  proof -
    have "is_section_ref b h v" using w(3) that by (simp add: list_all_iff)
    then obtain s where v: "v = PRef s" and s: "s \<noteq> b" "length (h ! s) = 9"
      by (cases v) (simp_all add: is_section_ref_def)
    from assms(4) [of s] that v have "s < length H" "H ! s = h ! s" by simp_all
    then show ?thesis using v s by (simp add: is_section_ref_def)
  qed
  then show wf: "wf_board b H"
    using w(1,2) assms(2,3) by (simp add: wf_board_def list_all_iff)
  show "get_board_item b x y H = get_board_item b x y h"
  proof (cases "in_range x y")
    case False
    then show ?thesis by (simp add: get_board_item_out_of_range)
  next
    case True
    have so: "section_of b x y H = section_of b x y h" by (simp add: section_of_def assms(3))
    have "h ! b ! section_index x y \<in> set (h ! b)"
      using w(1) section_index_less [OF True] by simp
    moreover have "h ! b ! section_index x y = PRef (section_of b x y h)"
      using get_at_section(1) [OF assms(1) True] w(1) section_index_less [OF True]
        calculation w(3)
      by (cases "h ! b ! section_index x y")
        (auto simp: list_all_iff is_section_ref_def section_of_def)
    ultimately have "H ! section_of b x y h = h ! section_of b x y h"
      using assms(4) [of "section_of b x y h"] by simp
    then show ?thesis
      using get_board_item_wf [OF wf True] get_board_item_wf [OF assms(1) True] so by simp
  qed
qed

lemma wf_board_refs:
  assumes "wf_board b h" "PRef s \<in> set (h ! b)"
  shows "s < length h" and "s \<noteq> b"
proof -
  have "is_section_ref b h (PRef s)"
    using assms by (simp add: wf_board_def list_all_iff)
  then show "s < length h" and "s \<noteq> b" by (simp_all add: is_section_ref_def)
qed

lemma section_of_mem:
  assumes "wf_board b h" "in_range x y"
  shows "PRef (section_of b x y h) \<in> set (h ! b)"
proof -
  have l: "length (h ! b) = 9" using assms(1) by (simp add: wf_board_def)
  have i: "section_index x y < 9" using assms(2) by (rule section_index_less)
  have m: "h ! b ! section_index x y \<in> set (h ! b)" using l i by simp
  then have "is_section_ref b h (h ! b ! section_index x y)"
    using assms(1) by (simp add: wf_board_def list_all_iff)
  then have "h ! b ! section_index x y = PRef (section_of b x y h)"
    by (cases "h ! b ! section_index x y") (simp_all add: is_section_ref_def section_of_def)
  with m show ?thesis by simp
qed

lemma set_board_item_elsewhere:
  assumes "wf_board b h" "wf_board c h" "in_range x y"
    and "PRef b \<notin> set (h ! c)"
    and "\<And>s. PRef s \<in> set (h ! b) \<Longrightarrow> PRef s \<notin> set (h ! c)"
  shows "fst (set_board_item c v x y h) = Inr ()"
    and "get_board_item b x' y' (snd (set_board_item c v x y h)) = get_board_item b x' y' h"
proof -
  let ?s = "section_of c x y h"
  let ?H = "h[?s := (h ! ?s)[slot_index x y := v]]"
  have e: "set_board_item c v x y h = (Inr (), ?H)"
    using assms(2,3) by (rule set_board_item_wf)
  then show "fst (set_board_item c v x y h) = Inr ()" by simp
  have m: "PRef ?s \<in> set (h ! c)" using assms(2,3) by (rule section_of_mem)
  have sb: "?s \<noteq> b" using assms(4) m by auto
  have "get_board_item b x' y' ?H = get_board_item b x' y' h"
  proof (rule get_board_item_cong(2) [OF assms(1)])
    show "b < length ?H" using assms(1) by (simp add: wf_board_def)
    show "?H ! b = h ! b" using sb by simp
    fix s assume s: "PRef s \<in> set (h ! b)"
    then have "s \<noteq> ?s" using assms(5) [OF s] m by auto
    then show "s < length ?H \<and> ?H ! s = h ! s"
      using wf_board_refs(1) [OF assms(1) s] by simp
  qed
  then show "get_board_item b x' y' (snd (set_board_item c v x y h)) = get_board_item b x' y' h"
    using e by simp
qed

lemma wf_after_set:
  assumes "wf_board b h" "in_range x y"
  shows "wf_board b (h[section_of b x y h := (h ! section_of b x y h)[slot_index x y := v]])"
  using assms(1) get_at_section(3) [OF assms] by (rule wf_board_update) simp

lemma get_after_set_same:
  assumes "wf_board b h" "in_range x y"
  shows "get_board_item b x y
           (h[section_of b x y h := (h ! section_of b x y h)[slot_index x y := v]]) = Inr v"
proof -
  let ?s = "section_of b x y h"
  let ?h' = "h[?s := (h ! ?s)[slot_index x y := v]]"
  note s = get_at_section [OF assms]
  have so: "section_of b x y ?h' = ?s" using s(3) by (simp add: section_of_def)
  have "get_board_item b x y ?h' = Inr (?h' ! ?s ! slot_index x y)"
    using get_board_item_wf [OF wf_after_set [OF assms] assms(2)] so by simp
  also have "?h' ! ?s ! slot_index x y = v"
    using s(2,4) slot_index_less [of x y] by simp
  finally show ?thesis .
qed

lemma get_after_set_other:
  assumes "wf_board b h" "in_range x y" "(x', y') \<noteq> (x, y)"
  shows "get_board_item b x' y'
           (h[section_of b x y h := (h ! section_of b x y h)[slot_index x y := v]]) =
         get_board_item b x' y' h"
proof (cases "in_range x' y'")
  case False
  then show ?thesis by (simp add: get_board_item_out_of_range)
next
  case True
  let ?s = "section_of b x y h"
  let ?h' = "h[?s := (h ! ?s)[slot_index x y := v]]"
  let ?t = "section_of b x' y' h"
  note s = get_at_section [OF assms(1,2)]
  have so: "section_of b x' y' ?h' = ?t" using s(3) by (simp add: section_of_def)
  have "?h' ! ?t ! slot_index x' y' = h ! ?t ! slot_index x' y'"
  proof (cases "?t = ?s")
    case False
    then show ?thesis by simp
  next
    case same: True
    then have "section_index x' y' = section_index x y"
      using section_of_inj [OF assms(1) True assms(2)] by simp
    then have "slot_index x' y' \<noteq> slot_index x y"
      using index_inj [OF True assms(2)] assms(3) by auto
    then show ?thesis using same s(2) by simp
  qed
  then show ?thesis
    using get_board_item_wf [OF wf_after_set [OF assms(1,2)] True]
      get_board_item_wf [OF assms(1) True] so
    by simp
qed

lemma mem_new_slots: "(PRef s \<in> set (new_slots n)) = (n < s \<and> s \<le> n + 9)"
  unfolding new_slots_def by (simp only: list.set insert_iff empty_iff pyval.inject) arith

lemma new_slots_refs: "v \<in> set (new_slots n) \<Longrightarrow> \<exists>s. v = PRef s"
  by (auto simp: new_slots_def)

lemma distinct_new_slots: "distinct (new_slots n)"
  by (simp add: new_slots_def)

lemma length_new_slots: "length (new_slots n) = 9"
  by (simp add: new_slots_def)

lemma copy_inv_fresh:
  "copy_inv h (h @ new_slots (length h) # replicate 9 (replicate 9 PNone))"
  by (auto simp: copy_inv_def list_all_iff nth_append nth_Cons')

lemma copy_inv_section_length:
  assumes "copy_inv h H" "length h < s" "s \<le> length h + 9"
  shows "length (H ! s) = 9"
proof -
  have "s - length h \<in> set [1..<10]" using assms(2,3) by auto
  then have "length (H ! (length h + (s - length h))) = 9"
    using assms(1) unfolding copy_inv_def list_all_iff by blast
  then show ?thesis using assms(2) by simp
qed

lemma copy_inv_wf:
  assumes "copy_inv h H"
  shows "wf_board (length h) H"
proof -
  have s: "H ! length h = new_slots (length h)" and l: "length H = length h + 10"
    using assms by (simp_all add: copy_inv_def)
  have "is_section_ref (length h) H v" if m: "v \<in> set (new_slots (length h))" for v
  proof -
    obtain r where v: "v = PRef r" using new_slots_refs [OF m] by blast
    then have r: "length h < r" "r \<le> length h + 9" using m by (simp_all add: mem_new_slots)
    then show ?thesis
      using l copy_inv_section_length [OF assms r] by (simp add: v is_section_ref_def)
  qed
  then show ?thesis
    using s l by (simp add: wf_board_def length_new_slots distinct_new_slots list_all_iff)
qed

lemma copy_inv_old:
  assumes "copy_inv h H" "wf_board b h"
  shows "wf_board b H" and "get_board_item b x y H = get_board_item b x y h"
proof -
  have t: "take (length h) H = h" and l: "length H = length h + 10"
    using assms(1) by (simp_all add: copy_inv_def)
  have n: "H ! r = h ! r" if "r < length h" for r
    using that nth_take [of r "length h" H] t by simp
  have b: "b < length h" using assms(2) by (simp add: wf_board_def)
  have c: "s < length H \<and> H ! s = h ! s" if "PRef s \<in> set (h ! b)" for s
    using wf_board_refs(1) [OF assms(2) that] n l by simp
  show "wf_board b H"
    using assms(2) _ _ c by (rule get_board_item_cong(1)) (use b l n in simp_all)
  show "get_board_item b x y H = get_board_item b x y h"
    using assms(2) _ _ c by (rule get_board_item_cong(2)) (use b l n in simp_all)
qed

lemma copy_inv_set:
  assumes "copy_inv h H" "in_range x y"
  shows "copy_inv h
           (H[section_of (length h) x y H :=
                (H ! section_of (length h) x y H)[slot_index x y := v]])"
proof -
  let ?n = "length h"
  let ?s = "section_of ?n x y H"
  have w: "wf_board ?n H" using assms(1) by (rule copy_inv_wf)
  have "PRef ?s \<in> set (H ! ?n)" using w assms(2) by (rule section_of_mem)
  then have s: "?n < ?s" "?s \<le> ?n + 9"
    using assms(1) by (simp_all add: copy_inv_def mem_new_slots)
  have sl: "?s < length H" using assms(1) s by (simp add: copy_inv_def)
  have "length ((H[?s := (H ! ?s)[slot_index x y := v]]) ! (?n + k)) = length (H ! (?n + k))" for k
    using sl by (cases "?n + k = ?s") (simp_all add: nth_list_update)
  then show ?thesis
    using assms(1) s by (simp add: copy_inv_def)
qed

lemma get_copy_loop_result:
  assumes "wf_board b h" "copy_inv h H" "\<And>x y. (x, y) \<in> set cs \<Longrightarrow> in_range x y"
  shows "\<exists>H'. get_copy_loop b (length h) cs H = (Inr (), H') \<and> copy_inv h H' \<and>
           (\<forall>x y. get_board_item (length h) x y H' =
                    (if (x, y) \<in> set cs then get_board_item b x y h
                     else get_board_item (length h) x y H))"
  using assms(2,3)
proof (induction cs arbitrary: H)
  case Nil
  then show ?case by simp
next
  case (Cons c cs)
  obtain x y where p: "c = (x, y)" by (cases c)
  let ?n = "length h"
  let ?s = "section_of ?n x y H"
  have r: "in_range x y" using Cons.prems(2) [of x y] by (simp add: p)
  have w: "wf_board ?n H" using Cons.prems(1) by (rule copy_inv_wf)
  have wb: "wf_board b H" using Cons.prems(1) assms(1) by (rule copy_inv_old)
  obtain v where g: "get_board_item b x y h = Inr v"
    using get_board_item_wf [OF assms(1) r] by blast
  then have g': "get_board_item b x y H = Inr v"
    using copy_inv_old(2) [OF Cons.prems(1) assms(1)] by simp
  let ?H1 = "H[?s := (H ! ?s)[slot_index x y := v]]"
  have e: "set_board_item ?n v x y H = (Inr (), ?H1)" using w r by (rule set_board_item_wf)
  have i1: "copy_inv h ?H1" using Cons.prems(1) r by (rule copy_inv_set)
  obtain H' where l: "get_copy_loop b ?n cs ?H1 = (Inr (), H')" and i': "copy_inv h H'"
    and c': "\<forall>x' y'. get_board_item ?n x' y' H' =
               (if (x', y') \<in> set cs then get_board_item b x' y' h
                else get_board_item ?n x' y' ?H1)"
    using Cons.IH [OF i1] Cons.prems(2) by auto
  have "get_copy_loop b ?n (c # cs) H = (Inr (), H')"
    using g' e l by (simp add: p)
  moreover have "get_board_item ?n x' y' H' =
                 (if (x', y') \<in> set (c # cs) then get_board_item b x' y' h
                  else get_board_item ?n x' y' H)" for x' y'
  proof (cases "(x', y') = (x, y)")
    case True
    have "get_board_item ?n x y ?H1 = get_board_item b x y h"
      using get_after_set_same [OF w r, of v] g by simp
    moreover have "get_board_item ?n x y H' =
          (if (x, y) \<in> set cs then get_board_item b x y h else get_board_item ?n x y ?H1)"
      using c' by blast
    ultimately have "get_board_item ?n x y H' = get_board_item b x y h" by simp
    then show ?thesis using True by (simp add: p)
  next
    case False
    have m: "((x', y') \<in> set (c # cs)) = ((x', y') \<in> set cs)"
      using False by (auto simp: p)
    have "get_board_item ?n x' y' ?H1 = get_board_item ?n x' y' H"
      using w r False by (rule get_after_set_other)
    moreover have "get_board_item ?n x' y' H' =
          (if (x', y') \<in> set cs then get_board_item b x' y' h
           else get_board_item ?n x' y' ?H1)"
      using c' by blast
    ultimately show ?thesis unfolding m by simp
  qed
  ultimately show ?case using i' by blast
qed

text \<open>
  \<open>Board()\<close> builds a well-formed board in any store, and \<open>set_board_item\<close> keeps
  a board well formed, whether it succeeds or raises.
\<close>

lemma Board_init_wf: "wf_board (length h) (snd (Board_init h))"
  using copy_inv_wf [OF copy_inv_fresh, of h] by (simp add: Board_init_result)

lemma set_board_item_keeps_wf:
  assumes "wf_board b h"
  shows "wf_board b (snd (set_board_item b v x y h))"
proof (cases "in_range x y")
  case True
  then show ?thesis using assms by (simp add: set_board_item_wf wf_after_set)
next
  case False
  then show ?thesis using assms by (simp add: set_board_item_out_of_range)
qed

section \<open>Reading and writing cells\<close>

text \<open>
  Claim C4. On a well-formed board and for coordinates \<open>x\<close>, \<open>y\<close> in \<open>[0,8]\<close>,
  \<open>set_board_item\<close> succeeds for every value, and \<open>get_board_item\<close> at the same
  coordinates then returns that value.
\<close>

theorem set_then_get:
  assumes "wf_board b h" "in_range x y"
  shows "fst (set_board_item b v x y h) = Inr () \<and>
         get_board_item b x y (snd (set_board_item b v x y h)) = Inr v"
  using set_board_item_wf [OF assms, of v] get_after_set_same [OF assms, of v] by simp

theorem set_then_get_witness:
  "wf_board 0 (snd (Board_init [])) \<and> in_range 4 7 \<and>
   fst (set_board_item 0 (PInt 5) 4 7 (snd (Board_init []))) = Inr () \<and>
   get_board_item 0 4 7 (snd (set_board_item 0 (PInt 5) 4 7 (snd (Board_init [])))) = Inr (PInt 5)"
proof -
  have w: "wf_board 0 (snd (Board_init []))" by code_simp
  have r: "in_range 4 7" by (simp add: in_range_def)
  show ?thesis using w r set_then_get [OF w r, of "PInt 5"] by simp
qed

text \<open>
  Claim C5. On a well-formed board and for coordinates in \<open>[0,8]\<close>, \<open>set_board_item\<close>
  changes one slot of one \<open>Section\<close> object of the store and nothing else, and every
  cell at other coordinates reads as before the call.
\<close>

theorem set_frame:
  assumes "wf_board b h" "in_range x y"
  shows "snd (set_board_item b v x y h) =
           h[section_of b x y h := (h ! section_of b x y h)[slot_index x y := v]] \<and>
         (\<forall>x' y'. (x', y') \<noteq> (x, y) \<longrightarrow>
            get_board_item b x' y' (snd (set_board_item b v x y h)) = get_board_item b x' y' h)"
  using set_board_item_wf [OF assms, of v] get_after_set_other [OF assms, of _ _ v] by simp

theorem set_frame_witness:
  "wf_board 0 (snd (Board_init [])) \<and> in_range 4 7 \<and> ((3::int), (7::int)) \<noteq> (4, 7) \<and>
   get_board_item 0 3 7 (snd (set_board_item 0 (PInt 5) 4 7 (snd (Board_init [])))) =
   get_board_item 0 3 7 (snd (Board_init []))"
proof -
  have w: "wf_board 0 (snd (Board_init []))" by code_simp
  have r: "in_range 4 7" by (simp add: in_range_def)
  have c: "\<forall>x' y'. (x', y') \<noteq> (4, 7) \<longrightarrow>
            get_board_item 0 x' y' (snd (set_board_item 0 (PInt 5) 4 7 (snd (Board_init [])))) =
            get_board_item 0 x' y' (snd (Board_init []))"
    using set_frame [OF w r, of "PInt 5"] by (rule conjunct2)
  show ?thesis using w r c [rule_format, of 3 7] by simp
qed

text \<open>
  Claim C6. With \<open>x\<close> or \<open>y\<close> outside \<open>[0,8]\<close>, \<open>get_board_item\<close> and
  \<open>set_board_item\<close> raise \<open>IndexError\<close>; \<open>get_row\<close> raises it for \<open>y\<close> outside
  \<open>[0,8]\<close> and \<open>get_column\<close> for \<open>x\<close> outside \<open>[0,8]\<close>. This holds for any store.
\<close>

theorem out_of_range_raises:
  "(\<not> in_range x y \<longrightarrow>
      get_board_item self x y h = Inl IndexError \<and>
      fst (set_board_item self v x y h) = Inl IndexError) \<and>
   (\<not> (0 \<le> y \<and> y \<le> 8) \<longrightarrow> get_row self y h = Inl IndexError) \<and>
   (\<not> (0 \<le> x \<and> x \<le> 8) \<longrightarrow> get_column self x h = Inl IndexError)"
proof (intro conjI impI)
  assume "\<not> in_range x y"
  then show "get_board_item self x y h = Inl IndexError"
    and "fst (set_board_item self v x y h) = Inl IndexError"
    by (simp_all add: get_board_item_out_of_range set_board_item_out_of_range)
next
  assume "\<not> (0 \<le> y \<and> y \<le> 8)"
  then have "get_board_item self 0 y h = Inl IndexError"
    by (intro get_board_item_out_of_range) (simp add: in_range_def)
  then show "get_row self y h = Inl IndexError"
    by (simp add: get_row_def range_py_9)
next
  assume "\<not> (0 \<le> x \<and> x \<le> 8)"
  then have "get_board_item self x 0 h = Inl IndexError"
    by (intro get_board_item_out_of_range) (simp add: in_range_def)
  then show "get_column self x h = Inl IndexError"
    by (simp add: get_column_def range_py_9)
qed

theorem out_of_range_raises_witness:
  "\<not> in_range 9 (- 1) \<and> \<not> (0 \<le> (- 1 :: int) \<and> (- 1 :: int) \<le> 8) \<and> \<not> (0 \<le> (9 :: int) \<and> (9 :: int) \<le> 8) \<and>
   get_board_item 0 9 (- 1) (snd (Board_init [])) = Inl IndexError \<and>
   fst (set_board_item 0 (PInt 5) 9 (- 1) (snd (Board_init []))) = Inl IndexError \<and>
   get_row 0 (- 1) (snd (Board_init [])) = Inl IndexError \<and>
   get_column 0 9 (snd (Board_init [])) = Inl IndexError"
  using out_of_range_raises [of 9 "- 1" 0 "snd (Board_init [])" "PInt 5"]
  by (simp add: in_range_def)

text \<open>
  Claim C7. \<open>Section.set_at\<close> is claimed to raise for local coordinates outside
  \<open>[0,2]\<close>, as \<open>get_at\<close> does. It has no guard: on a fresh \<open>Section\<close>,
  \<open>get_at(3, 0)\<close> raises \<open>IndexError\<close>, while \<open>set_at(7, 3, 0)\<close> returns normally
  and writes slot 3, the cell \<open>(0, 1)\<close>, and \<open>set_at(7, -1, 0)\<close> writes slot 8.
\<close>

theorem set_at_unguarded:
  "get_at 0 3 0 (snd (Section_init [])) = Inl IndexError \<and>
   set_at 0 (PInt 7) 3 0 (snd (Section_init [])) =
     (Inr (), [ [PNone, PNone, PNone, PInt 7, PNone, PNone, PNone, PNone, PNone] ]) \<and>
   set_at 0 (PInt 7) (- 1) 0 (snd (Section_init [])) =
     (Inr (), [ [PNone, PNone, PNone, PNone, PNone, PNone, PNone, PNone, PInt 7] ])"
  by code_simp

text \<open>
  Claim C10. A \<open>set_board_item\<close> with \<open>x\<close> or \<open>y\<close> outside \<open>[0,8]\<close> raises
  \<open>IndexError\<close> and leaves the store as it was, so every cell reads as before.
\<close>

theorem failed_set_changes_nothing:
  assumes "\<not> in_range x y"
  shows "set_board_item self v x y h = (Inl IndexError, h) \<and>
         (\<forall>x' y'. get_board_item self x' y' (snd (set_board_item self v x y h)) =
                  get_board_item self x' y' h)"
  using assms by (simp add: set_board_item_out_of_range)

theorem failed_set_changes_nothing_witness:
  "\<not> in_range 3 9 \<and>
   set_board_item 0 (PInt 5) 3 9 (snd (Board_init [])) = (Inl IndexError, snd (Board_init [])) \<and>
   (\<forall>x' y'. get_board_item 0 x' y' (snd (set_board_item 0 (PInt 5) 3 9 (snd (Board_init [])))) =
            get_board_item 0 x' y' (snd (Board_init [])))"
  using failed_set_changes_nothing [of 3 9 0 "PInt 5" "snd (Board_init [])"]
  by (simp add: in_range_def)

section \<open>Validity and completion\<close>



text \<open>
  Claim C2. \<open>is_valid\<close> returns \<open>True\<close> exactly when each of the 27 unit checks
  returns \<open>True\<close>. On a well-formed board whose integers are digits from 1 to 9 it
  returns that conjunction, so a single invalid unit makes it \<open>False\<close>.
\<close>

theorem is_valid_conjunction:
  "(is_valid b h = Inr True) = all_units_valid b h \<and>
   (wf_board b h \<and> digit_board b h \<longrightarrow> is_valid b h = Inr (all_units_valid b h))"
  by (simp add: is_valid_True is_valid_wf)

theorem is_valid_conjunction_witness:
  "wf_board 0 row_clash_board \<and> digit_board 0 row_clash_board \<and>
   \<not> all_units_valid 0 row_clash_board \<and> is_valid 0 row_clash_board = Inr False \<and>
   wf_board 0 solution_board \<and> digit_board 0 solution_board \<and>
   all_units_valid 0 solution_board \<and> is_valid 0 solution_board = Inr True"
proof -
  have d: "digit_board 0 row_clash_board" "digit_board 0 solution_board" by code_simp+
  have n: "\<not> all_units_valid 0 row_clash_board" "all_units_valid 0 solution_board"
    by code_simp+
  show ?thesis
    using is_valid_conjunction [of 0 row_clash_board] is_valid_conjunction [of 0 solution_board]
      wf_row_clash_board wf_solution_board d n
    by simp
qed



section \<open>Copying and loading\<close>

text \<open>
  Claim C8. \<open>get_copy\<close> on a well-formed board returns a new well-formed board that
  reads the same value as the original at every coordinate, and leaves the original as
  it was. The two share no object: a \<open>set_board_item\<close> on the copy, at any coordinates
  in \<open>[0,8]\<close> and with any value, changes no cell of the original, and a
  \<open>set_board_item\<close> on the original changes no cell of the copy.
\<close>

theorem get_copy_independent:
  assumes "wf_board b h"
  shows "\<exists>b2 h2. get_copy b h = (Inr b2, h2) \<and> b2 \<noteq> b \<and> wf_board b2 h2 \<and> wf_board b h2 \<and>
           (\<forall>x y. get_board_item b2 x y h2 = get_board_item b x y h) \<and>
           (\<forall>x y. get_board_item b x y h2 = get_board_item b x y h) \<and>
           (\<forall>v x y x' y'. in_range x y \<longrightarrow>
              fst (set_board_item b2 v x y h2) = Inr () \<and>
              get_board_item b x' y' (snd (set_board_item b2 v x y h2)) =
              get_board_item b x' y' h2) \<and>
           (\<forall>v x y x' y'. in_range x y \<longrightarrow>
              fst (set_board_item b v x y h2) = Inr () \<and>
              get_board_item b2 x' y' (snd (set_board_item b v x y h2)) =
              get_board_item b2 x' y' h2)"
proof -
  let ?n = "length h"
  let ?H0 = "h @ new_slots ?n # replicate 9 (replicate 9 PNone)"
  have i0: "copy_inv h ?H0" by (rule copy_inv_fresh)
  obtain H where l: "get_copy_loop b ?n (nested_range 9 9) ?H0 = (Inr (), H)"
    and i: "copy_inv h H"
    and c: "\<forall>x y. get_board_item ?n x y H =
              (if (x, y) \<in> set (nested_range 9 9) then get_board_item b x y h
               else get_board_item ?n x y ?H0)"
    using get_copy_loop_result [OF assms i0, of "nested_range 9 9"]
    by (auto simp: in_nested_range_9)
  have e: "get_copy b h = (Inr ?n, H)"
    by (simp add: get_copy_def Board_init_result l)
  have bn: "b < ?n" using assms by (simp add: wf_board_def)
  have wn: "wf_board ?n H" using i by (rule copy_inv_wf)
  have wb: "wf_board b H" using i assms by (rule copy_inv_old)
  have old: "get_board_item b x y H = get_board_item b x y h" for x y
    using i assms by (rule copy_inv_old)
  have new: "get_board_item ?n x y H = get_board_item b x y h" for x y
  proof (cases "in_range x y")
    case True
    then show ?thesis using c by (simp add: in_nested_range_9)
  next
    case False
    then show ?thesis by (simp add: get_board_item_out_of_range)
  qed
  have Hn: "H ! ?n = new_slots ?n" using i by (simp add: copy_inv_def)
  have "take ?n H = h" using i by (simp add: copy_inv_def)
  then have Hb: "H ! b = h ! b" using bn nth_take [of b ?n H] by simp
  have lo: "s < ?n" if "PRef s \<in> set (H ! b)" for s
    using wf_board_refs(1) [OF assms, of s] that Hb by simp
  have hi: "?n < s" if "PRef s \<in> set (H ! ?n)" for s
    using that Hn by (simp add: mem_new_slots)
  have d1: "PRef b \<notin> set (H ! ?n)" using hi [of b] bn by auto
  have d2: "PRef ?n \<notin> set (H ! b)" using lo [of ?n] by auto
  have d3: "PRef s \<notin> set (H ! ?n)" if "PRef s \<in> set (H ! b)" for s
    using lo [OF that] hi [of s] by auto
  have d4: "PRef s \<notin> set (H ! b)" if "PRef s \<in> set (H ! ?n)" for s
    using hi [OF that] lo [of s] by auto
  have f1: "fst (set_board_item ?n v x y H) = Inr () \<and>
            get_board_item b x' y' (snd (set_board_item ?n v x y H)) = get_board_item b x' y' H"
    if "in_range x y" for v x y x' y'
    using set_board_item_elsewhere [OF wb wn that d1 d3] by simp
  have f2: "fst (set_board_item b v x y H) = Inr () \<and>
            get_board_item ?n x' y' (snd (set_board_item b v x y H)) = get_board_item ?n x' y' H"
    if "in_range x y" for v x y x' y'
    using set_board_item_elsewhere [OF wn wb that d2 d4] by simp
  show ?thesis
    using e bn wn wb old new f1 f2 by (intro exI [of _ ?n] exI [of _ H]) simp
qed

theorem get_copy_independent_witness:
  "wf_board 0 row_clash_board \<and>
   fst (get_copy 0 row_clash_board) = Inr 10 \<and>
   get_board_item 10 3 0 (snd (get_copy 0 row_clash_board)) = Inr (PInt 5) \<and>
   get_board_item 0 3 0
     (snd (set_board_item 10 (PInt 7) 3 0 (snd (get_copy 0 row_clash_board)))) = Inr (PInt 5) \<and>
   get_board_item 10 3 0
     (snd (set_board_item 0 (PInt 7) 3 0 (snd (get_copy 0 row_clash_board)))) = Inr (PInt 5)"
proof -
  from get_copy_independent [OF wf_row_clash_board] obtain b2 h2 where
    e: "get_copy 0 row_clash_board = (Inr b2, h2)" and
    c1: "\<forall>x y. get_board_item b2 x y h2 = get_board_item 0 x y row_clash_board" and
    c2: "\<forall>x y. get_board_item 0 x y h2 = get_board_item 0 x y row_clash_board" and
    c3: "\<forall>v x y x' y'. in_range x y \<longrightarrow>
              fst (set_board_item b2 v x y h2) = Inr () \<and>
              get_board_item 0 x' y' (snd (set_board_item b2 v x y h2)) =
              get_board_item 0 x' y' h2" and
    c4: "\<forall>v x y x' y'. in_range x y \<longrightarrow>
              fst (set_board_item 0 v x y h2) = Inr () \<and>
              get_board_item b2 x' y' (snd (set_board_item 0 v x y h2)) =
              get_board_item b2 x' y' h2"
    by blast
  have f: "fst (get_copy 0 row_clash_board) = Inr 10" by code_simp
  have g: "get_board_item 0 3 0 row_clash_board = Inr (PInt 5)" by code_simp
  have r: "in_range 3 0" by (simp add: in_range_def)
  have b2: "b2 = 10" using e f by simp
  have h2: "h2 = snd (get_copy 0 row_clash_board)" using e by simp
  have "get_board_item 10 3 0 h2 = Inr (PInt 5)" using c1 g b2 by simp
  moreover have "get_board_item 0 3 0 (snd (set_board_item 10 (PInt 7) 3 0 h2)) = Inr (PInt 5)"
    using c3 [rule_format, OF r, of "PInt 7" 3 0] c2 g b2 by simp
  moreover have "get_board_item 10 3 0 (snd (set_board_item 0 (PInt 7) 3 0 h2)) = Inr (PInt 5)"
    using c4 [rule_format, OF r, of "PInt 7" 3 0] c1 g b2 by simp
  ultimately show ?thesis using wf_row_clash_board f unfolding h2 by simp
qed

text \<open>
  Claim C9. Rows beyond the ninth are claimed to be ignored by \<open>load_board\<close>. The
  loop has a guard for the columns (\<open>if x >= 9: break\<close>) and none for the rows: a text
  of nine empty lines and a tenth line \<open>1\<close> reaches \<open>set_board_item(1, 0, 9)\<close>, which
  raises \<open>IndexError\<close>. A tenth line that holds only a space loads, and so does a line
  of ten characters, whose tenth is dropped.
\<close>

theorem load_board_tenth_row:
  "fst (load_board 0 (replicate 9 (CHR 0x0A) @ ''1'') empty_board) = Inl IndexError \<and>
   fst (load_board 0 (replicate 9 (CHR 0x0A) @ '' '') empty_board) = Inr () \<and>
   fst (load_board 0 ''1234567891'' empty_board) = Inr ()"
  by code_simp

end
